theory Spec2Isabelle
  imports Complex_Main
begin

section \<open>Errors and dictionaries\<close>

text \<open>
  The notebook \<^verbatim>\<open>HMM basics.ipynb\<close> keeps its model in global variables: the
  probability tables \<^verbatim>\<open>initial\<close>, \<^verbatim>\<open>transition\<close>, \<^verbatim>\<open>emission\<close> and the
  dictionaries \<^verbatim>\<open>id2state\<close>, \<^verbatim>\<open>state2id\<close>, \<^verbatim>\<open>word2id\<close>, \<^verbatim>\<open>id2word\<close>.
  Probabilities are Python floats written as short decimals; they are read here as the
  rationals those decimals denote. A table is the list of its rows.
\<close>

datatype error = IndexError | KeyError | ValueError

text \<open>A dict literal or comprehension inserts its items in order; a later key overwrites.\<close>

definition dict_of :: "('k \<times> 'v) list \<Rightarrow> ('k \<rightharpoonup> 'v)" where
  "dict_of kvs = foldl (\<lambda>m (k, v). m(k \<mapsto> v)) Map.empty kvs"

text \<open>
  \<^verbatim>\<open>id2state = {0: 'Subject', 1: 'Adjective', 2: 'Adverb', 3: 'Verb', 4: 'Object', 5: '<EOS>'}\<close>
  and \<^verbatim>\<open>state2id = {id2state[s]: s for s in id2state}\<close>.
\<close>

definition id2state_items :: "(nat \<times> string) list" where
  "id2state_items =
     [(0, ''Subject''), (1, ''Adjective''), (2, ''Adverb''), (3, ''Verb''),
      (4, ''Object''), (5, ''<EOS>'')]"

definition id2state :: "nat \<rightharpoonup> string" where
  "id2state = dict_of id2state_items"

definition state2id :: "string \<rightharpoonup> nat" where
  "state2id = dict_of (map (\<lambda>(s, name). (name, s)) id2state_items)"

section \<open>Sampling\<close>

text \<open>
  \<^verbatim>\<open>np.random.choice(n, p=p)\<close> belongs to numpy, not to the notebook. It reads and
  advances the global random state and returns an index, or raises \<^verbatim>\<open>ValueError\<close>
  when it rejects its arguments. It is a parameter of the model: a function from the
  random state, \<open>n\<close> and \<open>p\<close> to the index drawn and the next random state, \<open>None\<close>
  when it raises.
\<close>

type_synonym 's sampler = "'s \<Rightarrow> nat \<Rightarrow> rat list \<Rightarrow> (nat \<times> 's) option"

text \<open>Indexing a list or the rows of an array by a sampled index.\<close>

definition row_at :: "'a list \<Rightarrow> nat \<Rightarrow> error + 'a" where
  "row_at xs i = (if i < length xs then Inr (xs ! i) else Inl IndexError)"

text \<open>
  The loop of \<^verbatim>\<open>generate\<close>, on the variables it updates: \<open>h\<close>, \<open>h_total\<close>,
  \<open>v_total\<close> and the random state.
  \<^verbatim>\<open>
    while(h != state2id['<EOS>']):
        v = np.random.choice(num_words, p=emission[h])
        v_total.append(v)
        h = np.random.choice(num_states, p=transition[h])
        h_total.append(h)
  \<close>
  The loop need not end, so it is a partial function: \<open>None\<close> is a run that goes on
  for ever, \<open>Some (Inl e)\<close> one that raises \<open>e\<close>.
\<close>

partial_function (option) generate_loop ::
  "'s sampler \<Rightarrow> rat list list \<Rightarrow> rat list list \<Rightarrow> nat \<Rightarrow> nat \<Rightarrow>
   nat \<Rightarrow> nat list \<Rightarrow> nat list \<Rightarrow> 's \<Rightarrow> (error + nat \<times> nat list \<times> nat list \<times> 's) option"
where
  "generate_loop choice transition emission num_states num_words h h_total v_total s =
     (case state2id ''<EOS>'' of
        None \<Rightarrow> Some (Inl KeyError)
      | Some eos \<Rightarrow>
          if h \<noteq> eos then
            (case row_at emission h of
               Inl e \<Rightarrow> Some (Inl e)
             | Inr pe \<Rightarrow>
                 (case choice s num_words pe of
                    None \<Rightarrow> Some (Inl ValueError)
                  | Some (v, s1) \<Rightarrow>
                      (case row_at transition h of
                         Inl e \<Rightarrow> Some (Inl e)
                       | Inr pt \<Rightarrow>
                           (case choice s1 num_states pt of
                              None \<Rightarrow> Some (Inl ValueError)
                            | Some (h', s2) \<Rightarrow>
                                generate_loop choice transition emission num_states num_words
                                  h' (h_total @ [h']) (v_total @ [v]) s2))))
          else Some (Inr (h, h_total, v_total, s)))"

declare generate_loop.simps [code]

text \<open>
  \<^verbatim>\<open>
  def generate(initial, transition, emission):
      num_states = len(initial)
      num_words = emission.shape[1]
      h = np.random.choice(num_states, p=initial)
      h_total = [h]
      v_total = []
      while ...
      v = np.random.choice(num_words, p=emission[h])
      v_total.append(v)
      return h_total, v_total
  \<close>
  \<^verbatim>\<open>emission.shape[1]\<close> is the length of the rows; an array without rows has a
  one-element shape, and reading its second element raises \<^verbatim>\<open>IndexError\<close>. The
  random state after the call is returned with the two lists.
\<close>

definition generate ::
  "'s sampler \<Rightarrow> rat list \<Rightarrow> rat list list \<Rightarrow> rat list list \<Rightarrow> 's \<Rightarrow>
   (error + nat list \<times> nat list \<times> 's) option"
where
  "generate choice initial transition emission s =
     (let num_states = length initial in
      case emission of
        [] \<Rightarrow> Some (Inl IndexError)
      | r # _ \<Rightarrow>
          let num_words = length r in
          (case choice s num_states initial of
             None \<Rightarrow> Some (Inl ValueError)
           | Some (h, s1) \<Rightarrow>
               (case generate_loop choice transition emission num_states num_words h [h] [] s1 of
                  None \<Rightarrow> None
                | Some (Inl e) \<Rightarrow> Some (Inl e)
                | Some (Inr (h', h_total, v_total, s2)) \<Rightarrow>
                    (case row_at emission h' of
                       Inl e \<Rightarrow> Some (Inl e)
                     | Inr pe \<Rightarrow>
                         (case choice s2 num_words pe of
                            None \<Rightarrow> Some (Inl ValueError)
                          | Some (v, s3) \<Rightarrow> Some (Inr (h_total, v_total @ [v], s3)))))))"

section \<open>The notebook's tables\<close>

text \<open>\<^verbatim>\<open>initial = [0.7, 0.3, 0., 0., 0., 0.]\<close>\<close>

definition initial :: "rat list" where
  "initial = [0.7, 0.3, 0, 0, 0, 0]"

text \<open>The 5 x 6 array \<^verbatim>\<open>transition\<close>: no row for \<^verbatim>\<open><EOS>\<close>.\<close>

definition transition :: "rat list list" where
  "transition =
     [[0, 0, 0.3, 0.7, 0, 0],
      [0.4, 0.1, 0, 0, 0.5, 0],
      [0, 0.3, 0, 0.7, 0, 0],
      [0, 0.3, 0.2, 0, 0.5, 0],
      [0, 0, 0, 0, 0, 1]]"

text \<open>The 6 x 15 array \<^verbatim>\<open>emission\<close>.\<close>

definition emission :: "rat list list" where
  "emission =
     [[0.2, 0.2, 0.2, 0.2, 0, 0, 0, 0, 0, 0, 0, 0, 0.1, 0.1, 0],
      [0, 0, 0, 0, 0, 0, 0, 0, 0, 0.5, 0.25, 0.25, 0, 0, 0],
      [0, 0, 0, 0, 0, 0, 0, 0.25, 0.25, 0.5, 0, 0, 0, 0, 0],
      [0, 0, 0, 0, 0.3, 0.4, 0.3, 0, 0, 0, 0, 0, 0, 0, 0],
      [0, 0, 0.2, 0.2, 0, 0, 0, 0, 0, 0, 0, 0, 0.3, 0.3, 0],
      [0, 0, 0, 0, 0, 0, 0, 0, 0, 0, 0, 0, 0, 0, 1]]"

text \<open>
  \<^verbatim>\<open>word2id = {'I': 0, 'He': 1, ..., '.': 14}\<close> and
  \<^verbatim>\<open>id2word = {word2id[w]: w for w in word2id}\<close>.
\<close>

definition word2id_items :: "(string \<times> nat) list" where
  "word2id_items =
     [(''I'', 0), (''He'', 1), (''Jack'', 2), (''Mary'', 3), (''likes'', 4),
      (''loves'', 5), (''hates'', 6), (''really'', 7), (''extremely'', 8),
      (''pretty'', 9), (''cute'', 10), (''adorable'', 11), (''cats'', 12),
      (''dogs'', 13), (''.'', 14)]"

definition word2id :: "string \<rightharpoonup> nat" where
  "word2id = dict_of word2id_items"

definition id2word :: "nat \<rightharpoonup> string" where
  "id2word = dict_of (map (\<lambda>(w, i). (i, w)) word2id_items)"

section \<open>Rendering\<close>

text \<open>
  The rendering cell:
  \<^verbatim>\<open>print(' '.join([id2word[v] for v in v_total]))\<close>.
  A missing key raises \<^verbatim>\<open>KeyError\<close>.
\<close>

fun lookup_all :: "('k \<rightharpoonup> 'v) \<Rightarrow> 'k list \<Rightarrow> error + 'v list" where
  "lookup_all d [] = Inr []"
| "lookup_all d (k # ks) =
     (case d k of
        None \<Rightarrow> Inl KeyError
      | Some v \<Rightarrow> (case lookup_all d ks of Inl e \<Rightarrow> Inl e | Inr vs \<Rightarrow> Inr (v # vs)))"

fun join :: "string \<Rightarrow> string list \<Rightarrow> string" where
  "join sep [] = []"
| "join sep [w] = w"
| "join sep (w # ws) = w @ sep @ join sep ws"

definition render_words :: "nat list \<Rightarrow> error + string" where
  "render_words v_total =
     (case lookup_all id2word v_total of Inl e \<Rightarrow> Inl e | Inr ws \<Rightarrow> Inr (join '' '' ws))"

section \<open>Samplers\<close>

text \<open>
  The sampler is trusted never to return an index of probability zero:
  every index it returns lies inside the vector it was given, at a positive entry.
\<close>

definition positive_at :: "rat list \<Rightarrow> nat \<Rightarrow> bool" where
  "positive_at p i \<longleftrightarrow> i < length p \<and> 0 < p ! i"

definition positive_support :: "'s sampler \<Rightarrow> bool" where
  "positive_support choice \<longleftrightarrow>
     (\<forall>s n p i s'. choice s n p = Some (i, s') \<longrightarrow> positive_at p i)"

text \<open>
  What \<^verbatim>\<open>np.random.choice\<close> asks of its arguments before it draws: \<open>p\<close> has
  \<open>n\<close> entries, none negative, and they sum to one.
\<close>

definition accepts :: "nat \<Rightarrow> rat list \<Rightarrow> bool" where
  "accepts n p \<longleftrightarrow> length p = n \<and> list_all (\<lambda>x. 0 \<le> x) p \<and> sum_list p = 1"

text \<open>
  A scripted sampler for tests: the random state is the list of the draws still to
  come. It raises when the script has run out, when the arguments would be refused, or
  when the scripted index has probability zero.
\<close>

fun scripted :: "nat list sampler" where
  "scripted [] n p = None"
| "scripted (i # s) n p = (if accepts n p \<and> positive_at p i then Some (i, s) else None)"

text \<open>The same script read through a cursor: the random state is a position in it.\<close>

fun cursor_scripted :: "(nat \<times> nat list) sampler" where
  "cursor_scripted (k, xs) n p =
     (if k < length xs \<and> accepts n p \<and> positive_at p (xs ! k)
      then Some (xs ! k, (Suc k, xs)) else None)"

text \<open>A sampler without randomness: it always returns the first positive entry.\<close>

definition first_positive :: "'s sampler" where
  "first_positive s n p =
     (if accepts n p
      then map_option (\<lambda>i. (i, s)) (List.find (\<lambda>i. 0 < p ! i) [0..<length p])
      else None)"

text \<open>
  Two samplers produce the same draws from the random states \<open>R\<close> relates, when
  asked the same question from related states they both raise, or both return the same
  index and related states.
\<close>

definition same_draws :: "'s sampler \<Rightarrow> 't sampler \<Rightarrow> ('s \<Rightarrow> 't \<Rightarrow> bool) \<Rightarrow> bool" where
  "same_draws c1 c2 R \<longleftrightarrow>
     (\<forall>s t n p. R s t \<longrightarrow>
        (c1 s n p = None \<and> c2 t n p = None) \<or>
        (\<exists>i s' t'. c1 s n p = Some (i, s') \<and> c2 t n p = Some (i, t') \<and> R s' t'))"

text \<open>What a call hands back to its caller: the two lists or the error.\<close>

definition returned ::
  "(error + nat list \<times> nat list \<times> 's) option \<Rightarrow> (error + nat list \<times> nat list) option" where
  "returned = map_option (map_sum id (\<lambda>(h_total, v_total, s). (h_total, v_total)))"

section \<open>Notions of the specification\<close>

text \<open>
  Invariant I1 for one row: no negative entry, and the row sums to one within the
  tolerance.
\<close>

definition stochastic_row :: "rat \<Rightarrow> rat list \<Rightarrow> bool" where
  "stochastic_row tol r \<longleftrightarrow> list_all (\<lambda>x. 0 \<le> x) r \<and> \<bar>sum_list r - 1\<bar> \<le> tol"

text \<open>
  Invariant I3: the states on a path of positive probability from the initial
  distribution.
\<close>

inductive reachable :: "rat list \<Rightarrow> rat list list \<Rightarrow> nat \<Rightarrow> bool"
  for init :: "rat list" and trns :: "rat list list"
where
  start: "positive_at init i \<Longrightarrow> reachable init trns i"
| step: "reachable init trns h \<Longrightarrow> h < length trns \<Longrightarrow> positive_at (trns ! h) j \<Longrightarrow>
         reachable init trns j"

text \<open>
  The tables of the notebook with another transition table, in which Subject and
  Adjective only lead to each other. Every row is a distribution, and \<^verbatim>\<open><EOS>\<close> has
  probability zero from every state that can be reached.
\<close>

definition closed_transition :: "rat list list" where
  "closed_transition =
     [[0, 1, 0, 0, 0, 0],
      [1, 0, 0, 0, 0, 0],
      [0, 0.3, 0, 0.7, 0, 0],
      [0, 0.3, 0.2, 0, 0.5, 0],
      [0, 0, 0, 0, 0, 1]]"

text \<open>
  The tables of the notebook with another transition table, whose row of Adjective has a
  negative entry and sums to zero.
\<close>

definition unchecked_transition :: "rat list list" where
  "unchecked_transition =
     [[0, 0, 0.3, 0.7, 0, 0],
      [0.4, 0.1, 0, 0, -0.5, 0],
      [0, 0.3, 0, 0.7, 0, 0],
      [0, 0.3, 0.2, 0, 0.5, 0],
      [0, 0, 0, 0, 0, 1]]"

text \<open>
  The algorithm of section 4.2 of the specification, in its words: draw the first
  state from \<open>initial\<close>; then repeat: draw an observation from
  \<open>emission[current_state]\<close> and append the pair to the trajectory; stop if
  \<open>current_state\<close> is the terminal index; otherwise draw the next state from
  \<open>transition[current_state]\<close> and continue. A categorical draw over \<open>p\<close> is a
  draw among \<open>length p\<close> indices. The specification leaves failures open; a lookup
  outside a table and a refused draw are given the errors of the code.
\<close>

partial_function (option) spec_repeat ::
  "'s sampler \<Rightarrow> rat list list \<Rightarrow> rat list list \<Rightarrow> nat \<Rightarrow>
   nat \<Rightarrow> (nat \<times> nat) list \<Rightarrow> 's \<Rightarrow> (error + (nat \<times> nat) list \<times> 's) option"
where
  "spec_repeat choice trns emis terminal_index current_state trajectory s =
     (case row_at emis current_state of
        Inl e \<Rightarrow> Some (Inl e)
      | Inr pe \<Rightarrow>
          (case choice s (length pe) pe of
             None \<Rightarrow> Some (Inl ValueError)
           | Some (observation, s1) \<Rightarrow>
               if current_state = terminal_index
               then Some (Inr (trajectory @ [(current_state, observation)], s1))
               else
                 (case row_at trns current_state of
                    Inl e \<Rightarrow> Some (Inl e)
                  | Inr pt \<Rightarrow>
                      (case choice s1 (length pt) pt of
                         None \<Rightarrow> Some (Inl ValueError)
                       | Some (next_state, s2) \<Rightarrow>
                           spec_repeat choice trns emis terminal_index next_state
                             (trajectory @ [(current_state, observation)]) s2))))"

declare spec_repeat.simps [code]

definition spec_generate ::
  "'s sampler \<Rightarrow> rat list \<Rightarrow> rat list list \<Rightarrow> rat list list \<Rightarrow> nat \<Rightarrow> 's \<Rightarrow>
   (error + (nat \<times> nat) list \<times> 's) option"
where
  "spec_generate choice init trns emis terminal_index s =
     (case choice s (length init) init of
        None \<Rightarrow> Some (Inl ValueError)
      | Some (first_state, s1) \<Rightarrow> spec_repeat choice trns emis terminal_index first_state [] s1)"

text \<open>
  The trajectory of a call of \<^verbatim>\<open>generate\<close>: the pairs of its two lists, in order.
\<close>

definition trajectory_of ::
  "(error + nat list \<times> nat list \<times> 's) option \<Rightarrow> (error + (nat \<times> nat) list \<times> 's) option" where
  "trajectory_of = map_option (map_sum id (\<lambda>(h_total, v_total, s). (zip h_total v_total, s)))"

section \<open>The loop of generate\<close>

text \<open>The loop guard compares with the index of \<^verbatim>\<open><EOS>\<close>, which is 5.\<close>

lemma state2id_EOS: "state2id ''<EOS>'' = Some 5"
  by (simp add: state2id_def dict_of_def id2state_items_def)

text \<open>One turn of the loop.\<close>

lemma generate_loop_unfold:
  "generate_loop choice tr em ns nw h hs vs s =
     (if h \<noteq> 5 then
        (case row_at em h of
           Inl e \<Rightarrow> Some (Inl e)
         | Inr pe \<Rightarrow>
             (case choice s nw pe of
                None \<Rightarrow> Some (Inl ValueError)
              | Some (v, s1) \<Rightarrow>
                  (case row_at tr h of
                     Inl e \<Rightarrow> Some (Inl e)
                   | Inr pt \<Rightarrow>
                       (case choice s1 ns pt of
                          None \<Rightarrow> Some (Inl ValueError)
                        | Some (h', s2) \<Rightarrow>
                            generate_loop choice tr em ns nw h' (hs @ [h']) (vs @ [v]) s2))))
      else Some (Inr (h, hs, vs, s)))"
  by (subst generate_loop.simps) (simp add: state2id_EOS)

text \<open>
  The invariant rule of the loop. A run that returns does so at \<^verbatim>\<open><EOS>\<close> with
  the invariant; a run that raises \<^verbatim>\<open>IndexError\<close> has reached, with the invariant,
  a state other than \<^verbatim>\<open><EOS>\<close> that has no row in one of the tables.
\<close>

lemma generate_loop_rule:
  fixes choice :: "'s sampler"
  assumes run: "generate_loop choice tr em ns nw h hs vs s = Some y"
    and init: "I h hs vs"
    and step: "\<And>h hs vs s v s1 h2 s2. I h hs vs \<Longrightarrow> h \<noteq> 5 \<Longrightarrow> h < length em \<Longrightarrow>
      choice s nw (em ! h) = Some (v, s1) \<Longrightarrow> h < length tr \<Longrightarrow>
      choice s1 ns (tr ! h) = Some (h2, s2) \<Longrightarrow> I h2 (hs @ [h2]) (vs @ [v])"
  shows "(\<exists>hs' vs' s'. y = Inr (5, hs', vs', s') \<and> I 5 hs' vs') \<or>
         y = Inl ValueError \<or>
         (y = Inl IndexError \<and>
          (\<exists>h hs vs. I h hs vs \<and> h \<noteq> 5 \<and> \<not> (h < length em \<and> h < length tr)))"
    (is "?Q y")
proof -
  have aux: "generate_loop c t e n m h hs vs s = Some y \<Longrightarrow>
     c = choice \<and> t = tr \<and> e = em \<and> n = ns \<and> m = nw \<and> I h hs vs \<longrightarrow> ?Q y"
    for c t e n m h hs vs s y
  proof (erule generate_loop.raw_induct[rotated], goal_cases)
    case (1 f c t e n m h hs vs s y)
    show ?case
    proof (intro impI, elim conjE)
      assume eqs: "c = choice" "t = tr" "e = em" "n = ns" "m = nw"
        and inv: "I h hs vs"
      have body: "(if h \<noteq> 5 then
            (case row_at em h of
               Inl e \<Rightarrow> Some (Inl e)
             | Inr pe \<Rightarrow>
                 (case choice s nw pe of
                    None \<Rightarrow> Some (Inl ValueError)
                  | Some (v, s1) \<Rightarrow>
                      (case row_at tr h of
                         Inl e \<Rightarrow> Some (Inl e)
                       | Inr pt \<Rightarrow>
                           (case choice s1 ns pt of
                              None \<Rightarrow> Some (Inl ValueError)
                            | Some (h', s2) \<Rightarrow>
                                f choice tr em ns nw h' (hs @ [h']) (vs @ [v]) s2))))
          else Some (Inr (h, hs, vs, s))) = Some y"
        using 1(2) unfolding eqs by (simp add: state2id_EOS)
      show "?Q y"
      proof (cases "h = 5")
        case True
        with body inv show ?thesis by auto
      next
        case h5: False
        show ?thesis
        proof (cases "h < length em \<and> h < length tr")
          case False
          with body h5 inv have "y = Inl IndexError \<or> y = Inl ValueError"
            by (auto simp: row_at_def split: if_splits option.splits)
          with False h5 inv show ?thesis by blast
        next
          case True
          show ?thesis
          proof (cases "choice s nw (em ! h)")
            case None
            with body h5 True show ?thesis by (simp add: row_at_def)
          next
            case (Some a)
            obtain v s1 where a: "a = (v, s1)" by (cases a)
            show ?thesis
            proof (cases "choice s1 ns (tr ! h)")
              case None
              with body h5 True Some a show ?thesis by (simp add: row_at_def)
            next
              case (Some b)
              obtain h2 s2 where b: "b = (h2, s2)" by (cases b)
              from body h5 True \<open>choice s nw (em ! h) = Some a\<close> a Some b
              have rec: "f choice tr em ns nw h2 (hs @ [h2]) (vs @ [v]) s2 = Some y"
                by (simp add: row_at_def)
              have "I h2 (hs @ [h2]) (vs @ [v])"
                using step[OF inv h5 _ _ _ _] True \<open>choice s nw (em ! h) = Some a\<close> a Some b
                by blast
              with 1(1)[OF rec] show ?thesis by blast
            qed
          qed
        qed
      qed
    qed
  qed
  from aux[OF run] init show ?thesis by blast
qed

text \<open>The rule for a run that returns, and for a run that raises \<^verbatim>\<open>IndexError\<close>.\<close>

lemma generate_loop_returns:
  fixes choice :: "'s sampler"
  assumes run: "generate_loop choice tr em ns nw h hs vs s = Some (Inr (h', hs', vs', s'))"
    and init: "I h hs vs"
    and step: "\<And>h hs vs s v s1 h2 s2. I h hs vs \<Longrightarrow> h \<noteq> 5 \<Longrightarrow> h < length em \<Longrightarrow>
      choice s nw (em ! h) = Some (v, s1) \<Longrightarrow> h < length tr \<Longrightarrow>
      choice s1 ns (tr ! h) = Some (h2, s2) \<Longrightarrow> I h2 (hs @ [h2]) (vs @ [v])"
  shows "h' = 5 \<and> I h' hs' vs'"
  using generate_loop_rule[where I = I, OF run init step] by simp

lemma generate_loop_IndexError:
  fixes choice :: "'s sampler"
  assumes run: "generate_loop choice tr em ns nw h hs vs s = Some (Inl IndexError)"
    and init: "I h hs vs"
    and step: "\<And>h hs vs s v s1 h2 s2. I h hs vs \<Longrightarrow> h \<noteq> 5 \<Longrightarrow> h < length em \<Longrightarrow>
      choice s nw (em ! h) = Some (v, s1) \<Longrightarrow> h < length tr \<Longrightarrow>
      choice s1 ns (tr ! h) = Some (h2, s2) \<Longrightarrow> I h2 (hs @ [h2]) (vs @ [v])"
  shows "\<exists>h hs vs. I h hs vs \<and> h \<noteq> 5 \<and> \<not> (h < length em \<and> h < length tr)"
  using generate_loop_rule[where I = I, OF run init step] by simp

section \<open>What a call of generate returns\<close>

lemma positive_supportD:
  "positive_support choice \<Longrightarrow> choice s n p = Some (i, s') \<Longrightarrow> positive_at p i"
  unfolding positive_support_def by blast

lemma generate_unfold:
  "generate choice ini tr (r # rest) s =
     (case choice s (length ini) ini of
        None \<Rightarrow> Some (Inl ValueError)
      | Some (h, s1) \<Rightarrow>
          (case generate_loop choice tr (r # rest) (length ini) (length r) h [h] [] s1 of
             None \<Rightarrow> None
           | Some (Inl e) \<Rightarrow> Some (Inl e)
           | Some (Inr (h', h_total, v_total, s2)) \<Rightarrow>
               (case row_at (r # rest) h' of
                  Inl e \<Rightarrow> Some (Inl e)
                | Inr pe \<Rightarrow>
                    (case choice s2 (length r) pe of
                       None \<Rightarrow> Some (Inl ValueError)
                     | Some (v, s3) \<Rightarrow> Some (Inr (h_total, v_total @ [v], s3))))))"
  by (simp add: generate_def Let_def)

text \<open>A call of generate on an emission table that has a row.\<close>

lemma generate_unfold_ne:
  "em \<noteq> [] \<Longrightarrow>
   generate choice ini tr em s =
     (case choice s (length ini) ini of
        None \<Rightarrow> Some (Inl ValueError)
      | Some (h, s1) \<Rightarrow>
          (case generate_loop choice tr em (length ini) (length (hd em)) h [h] [] s1 of
             None \<Rightarrow> None
           | Some (Inl e) \<Rightarrow> Some (Inl e)
           | Some (Inr (h', h_total, v_total, s2)) \<Rightarrow>
               (case row_at em h' of
                  Inl e \<Rightarrow> Some (Inl e)
                | Inr pe \<Rightarrow>
                    (case choice s2 (length (hd em)) pe of
                       None \<Rightarrow> Some (Inl ValueError)
                     | Some (v, s3) \<Rightarrow> Some (Inr (h_total, v_total @ [v], s3))))))"
  by (cases em) (simp_all add: generate_unfold cong: option.case_cong sum.case_cong prod.case_cong)

text \<open>
  A call that returns has drawn the first state, left the loop at \<^verbatim>\<open><EOS>\<close>, and
  drawn the last observation from row 5 of \<open>emission\<close>.
\<close>

lemma generate_Inr_elim:
  assumes run: "generate choice ini tr em s = Some (Inr (hs, vs, s'))"
  obtains h0 s1 vs0 s2 v where
    "em \<noteq> []"
    "choice s (length ini) ini = Some (h0, s1)"
    "generate_loop choice tr em (length ini) (length (hd em)) h0 [h0] [] s1
       = Some (Inr (5, hs, vs0, s2))"
    "5 < length em"
    "choice s2 (length (hd em)) (em ! 5) = Some (v, s')"
    "vs = vs0 @ [v]"
proof -
  from run obtain r rest where em: "em = r # rest"
    by (cases em) (simp_all add: generate_def)
  note run' = run[unfolded em generate_unfold]
  from run' obtain a0 where a0: "choice s (length ini) ini = Some a0"
    by (cases "choice s (length ini) ini") simp_all
  obtain h0 s1 where c0: "a0 = (h0, s1)" by (cases a0)
  let ?loop = "generate_loop choice tr (r # rest) (length ini) (length r) h0 [h0] [] s1"
  from run' a0 c0 have r1:
    "(case ?loop of
        None \<Rightarrow> None
      | Some (Inl e) \<Rightarrow> Some (Inl e)
      | Some (Inr (h', h_total, v_total, s2)) \<Rightarrow>
          (case row_at (r # rest) h' of
             Inl e \<Rightarrow> Some (Inl e)
           | Inr pe \<Rightarrow>
               (case choice s2 (length r) pe of
                  None \<Rightarrow> Some (Inl ValueError)
                | Some (v, s3) \<Rightarrow> Some (Inr (h_total, v_total @ [v], s3)))))
     = Some (Inr (hs, vs, s'))"
    by simp
  then obtain y where y: "?loop = Some y" by (cases ?loop) simp_all
  with r1 obtain x where x: "y = Inr x" by (cases y) simp_all
  obtain h' hs1 vs0 s2 where x4: "x = (h', hs1, vs0, s2)" by (cases x)
  from generate_loop_returns[OF y[unfolded x x4], of "\<lambda>_ _ _. True"] have h': "h' = 5" by simp
  from r1 y x x4 h' have r2:
    "(case row_at (r # rest) 5 of
        Inl e \<Rightarrow> Some (Inl e)
      | Inr pe \<Rightarrow>
          (case choice s2 (length r) pe of
             None \<Rightarrow> Some (Inl ValueError)
           | Some (v, s3) \<Rightarrow> Some (Inr (hs1, vs0 @ [v], s3))))
     = Some (Inr (hs, vs, s'))"
    by simp
  then have em5: "5 < length (r # rest)"
    by (cases "5 < length (r # rest)") (simp_all add: row_at_def)
  with r2 have r3:
    "(case choice s2 (length r) ((r # rest) ! 5) of
             None \<Rightarrow> Some (Inl ValueError)
           | Some (v, s3) \<Rightarrow> Some (Inr (hs1, vs0 @ [v], s3)))
     = Some (Inr (hs, vs, s'))"
    by (simp add: row_at_def)
  then obtain a where a: "choice s2 (length r) ((r # rest) ! 5) = Some a"
    by (cases "choice s2 (length r) ((r # rest) ! 5)") simp_all
  obtain v s3 where a2: "a = (v, s3)" by (cases a)
  from r3 a a2 have e: "hs1 = hs" "vs = vs0 @ [v]" "s3 = s'" by simp_all
  show thesis
  proof (rule that[of h0 s1 vs0 s2 v])
    show "em \<noteq> []" by (simp add: em)
    show "choice s (length ini) ini = Some (h0, s1)" using a0 c0 by simp
    show "generate_loop choice tr em (length ini) (length (hd em)) h0 [h0] [] s1
       = Some (Inr (5, hs, vs0, s2))" using y x x4 h' e by (simp add: em)
    show "5 < length em" using em5 by (simp add: em)
    show "choice s2 (length (hd em)) (em ! 5) = Some (v, s')" using a a2 e by (simp add: em)
    show "vs = vs0 @ [v]" by fact
  qed
qed

text \<open>
  The trace of a call that returns, for a sampler with positive support: the first state
  has positive initial probability, each state has positive probability in the transition
  row of the state before it, each observation has positive probability in the emission
  row of its state, and \<^verbatim>\<open><EOS>\<close> comes last and only there.
\<close>

lemma generate_trace:
  assumes pos: "positive_support choice"
    and run: "generate choice ini tr em s = Some (Inr (hs, vs, s'))"
  shows "hs \<noteq> [] \<and> length vs = length hs \<and> last hs = 5 \<and> 5 \<notin> set (butlast hs) \<and>
     positive_at ini (hd hs) \<and>
     (\<forall>i. Suc i < length hs \<longrightarrow>
        hs ! i < length tr \<and> positive_at (tr ! (hs ! i)) (hs ! Suc i)) \<and>
     (\<forall>i<length hs. hs ! i < length em \<and> positive_at (em ! (hs ! i)) (vs ! i))"
proof -
  let ?I = "\<lambda>h hs vs. hs \<noteq> [] \<and> length hs = Suc (length vs) \<and> last hs = h \<and>
     5 \<notin> set (butlast hs) \<and> positive_at ini (hd hs) \<and>
     (\<forall>i. Suc i < length hs \<longrightarrow>
        hs ! i < length tr \<and> positive_at (tr ! (hs ! i)) (hs ! Suc i)) \<and>
     (\<forall>i<length vs. hs ! i < length em \<and> positive_at (em ! (hs ! i)) (vs ! i))"
  from run obtain h0 s1 vs0 s2 v where
    c0: "choice s (length ini) ini = Some (h0, s1)"
    and loop: "generate_loop choice tr em (length ini) (length (hd em)) h0 [h0] [] s1
       = Some (Inr (5, hs, vs0, s2))"
    and em5: "5 < length em"
    and cv: "choice s2 (length (hd em)) (em ! 5) = Some (v, s')"
    and vs: "vs = vs0 @ [v]"
    by (rule generate_Inr_elim)
  from pos c0 have p0: "positive_at ini h0" by (rule positive_supportD)
  from pos cv have pv: "positive_at (em ! 5) v" by (rule positive_supportD)
  have init: "?I h0 [h0] []" using p0 by simp
  have step: "?I h2 (hs @ [h2]) (vs @ [v])"
    if inv: "?I h hs vs" and h5: "h \<noteq> 5" and hem: "h < length em"
      and cv: "choice s nw (em ! h) = Some (v, s1)" and htr: "h < length tr"
      and ch: "choice s1 ns (tr ! h) = Some (h2, s2)"
    for h hs vs s v s1 h2 s2 nw ns
  proof -
    from pos cv have pv: "positive_at (em ! h) v" by (rule positive_supportD)
    from pos ch have ph: "positive_at (tr ! h) h2" by (rule positive_supportD)
    from inv have ne: "hs \<noteq> []" and len: "length hs = Suc (length vs)" and lst: "last hs = h"
      and no5: "5 \<notin> set (butlast hs)" and hd0: "positive_at ini (hd hs)"
      and tr: "\<And>i. Suc i < length hs \<Longrightarrow>
        hs ! i < length tr \<and> positive_at (tr ! (hs ! i)) (hs ! Suc i)"
      and emi: "\<And>i. i < length vs \<Longrightarrow> hs ! i < length em \<and> positive_at (em ! (hs ! i)) (vs ! i)"
      by blast+
    have lastn: "hs ! length vs = h" using ne len lst by (simp add: last_conv_nth)
    have a: "5 \<notin> set (butlast (hs @ [h2]))"
    proof -
      have "set hs = set (butlast hs) \<union> {last hs}"
        using ne by (subst append_butlast_last_id[symmetric]) (simp_all del: append_butlast_last_id)
      with no5 lst h5 show ?thesis by simp
    qed
    have b: "(hs @ [h2]) ! i < length tr \<and> positive_at (tr ! ((hs @ [h2]) ! i)) ((hs @ [h2]) ! Suc i)"
      if "Suc i < length (hs @ [h2])" for i
    proof (cases "Suc i < length hs")
      case True
      with tr[OF True] show ?thesis by (simp add: nth_append)
    next
      case False
      with that len have "i = length vs" by simp
      with lastn len htr ph show ?thesis by (simp add: nth_append)
    qed
    have c: "(hs @ [h2]) ! i < length em \<and> positive_at (em ! ((hs @ [h2]) ! i)) ((vs @ [v]) ! i)"
      if "i < length (vs @ [v])" for i
    proof (cases "i < length vs")
      case True
      with emi[OF True] len show ?thesis by (simp add: nth_append)
    next
      case False
      with that have "i = length vs" by simp
      with lastn len hem pv show ?thesis by (simp add: nth_append)
    qed
    from ne len hd0 a b c show ?thesis by simp
  qed
  have "5 = (5::nat) \<and> ?I 5 hs vs0"
    by (rule generate_loop_returns[where I = "?I", OF loop init]) (rule step; assumption)
  then have fin: "?I 5 hs vs0" by simp
  then have len: "length hs = Suc (length vs0)" and ne: "hs \<noteq> []" and lst: "last hs = 5" by blast+
  have lastn: "hs ! length vs0 = 5" using ne len lst by (simp add: last_conv_nth)
  have "hs ! i < length em \<and> positive_at (em ! (hs ! i)) (vs ! i)" if "i < length hs" for i
  proof (cases "i < length vs0")
    case True
    with fin vs show ?thesis by (simp add: nth_append)
  next
    case False
    with that len have "i = length vs0" by simp
    with lastn em5 pv vs show ?thesis by (simp add: nth_append)
  qed
  with fin vs show ?thesis by simp
qed

section \<open>Facts about the notebook's tables and the scripted sampler\<close>

lemma positive_support_scripted: "positive_support scripted"
  unfolding positive_support_def
proof (intro allI impI)
  fix s n p i s'
  assume "scripted s n p = Some (i, s')"
  then show "positive_at p i" by (cases s) (auto split: if_splits)
qed

text \<open>The scripted run of the scenario.\<close>

lemma scenario_run:
  "generate scripted initial transition emission [0, 0, 3, 4, 4, 13, 5, 14]
     = Some (Inr ([0, 3, 4, 5], [0, 4, 13, 14], []))"
  by (simp add: generate_def generate_loop_unfold row_at_def accepts_def positive_at_def
        initial_def transition_def emission_def)

text \<open>The row of Object has one positive entry, and so has the row of \<^verbatim>\<open><EOS>\<close>.\<close>

lemma transition_row_Object: "positive_at (transition ! 4) j \<Longrightarrow> j = 5"
  by (auto simp: positive_at_def transition_def nth_Cons split: nat.splits)

lemma emission_row_EOS: "positive_at (emission ! 5) j \<Longrightarrow> j = 14"
  by (auto simp: positive_at_def emission_def nth_Cons split: nat.splits)

section \<open>The scenario of the specification\<close>

text \<open>
  Claim C5. The draws are scripted as Subject, "I", Verb, "likes", Object, "dogs",
  \<^verbatim>\<open><EOS>\<close>, ".", that is 0, 0, 3, 4, 4, 13, 5, 14 by the two dictionaries. On the
  notebook's tables \<^verbatim>\<open>generate\<close> returns \<open>h_total = [0, 3, 4, 5]\<close> and
  \<open>v_total = [0, 4, 13, 14]\<close> and has used up the script; the observations render as
  "I likes dogs ."; and each scripted draw has positive probability in the vector it is
  drawn from.
\<close>

theorem scenario_I_likes_dogs:
  "map state2id [''Subject'', ''Verb'', ''Object'', ''<EOS>''] = map Some [0, 3, 4, 5] \<and>
   map word2id [''I'', ''likes'', ''dogs'', ''.''] = map Some [0, 4, 13, 14] \<and>
   generate scripted initial transition emission [0, 0, 3, 4, 4, 13, 5, 14]
     = Some (Inr ([0, 3, 4, 5], [0, 4, 13, 14], [])) \<and>
   render_words [0, 4, 13, 14] = Inr ''I likes dogs .'' \<and>
   positive_at initial 0 \<and> positive_at (emission ! 0) 0 \<and>
   positive_at (transition ! 0) 3 \<and> positive_at (emission ! 3) 4 \<and>
   positive_at (transition ! 3) 4 \<and> positive_at (emission ! 4) 13 \<and>
   positive_at (transition ! 4) 5 \<and> positive_at (emission ! 5) 14"
proof -
  have dicts:
    "map state2id [''Subject'', ''Verb'', ''Object'', ''<EOS>''] = map Some [0, 3, 4, 5]"
    "map word2id [''I'', ''likes'', ''dogs'', ''.''] = map Some [0, 4, 13, 14]"
    by (simp_all add: state2id_def word2id_def dict_of_def id2state_items_def word2id_items_def)
  have run: "generate scripted initial transition emission [0, 0, 3, 4, 4, 13, 5, 14]
     = Some (Inr ([0, 3, 4, 5], [0, 4, 13, 14], []))"
    by (rule scenario_run)
  have words: "render_words [0, 4, 13, 14] = Inr ''I likes dogs .''"
    by (simp add: render_words_def id2word_def dict_of_def word2id_items_def)
  have draws:
    "positive_at initial 0" "positive_at (emission ! 0) 0"
    "positive_at (transition ! 0) 3" "positive_at (emission ! 3) 4"
    "positive_at (transition ! 3) 4" "positive_at (emission ! 4) 13"
    "positive_at (transition ! 4) 5" "positive_at (emission ! 5) 14"
    by (simp_all add: positive_at_def initial_def transition_def emission_def)
  from dicts run words draws show ?thesis by blast
qed

section \<open>The tables are distributions\<close>

text \<open>
  Claim C6. Read as rationals, no entry of \<open>initial\<close>, \<open>transition\<close> or
  \<open>emission\<close> is negative, \<open>initial\<close> sums to exactly 1, and so does each of the 5
  rows of \<open>transition\<close> and each of the 6 rows of \<open>emission\<close>; hence every row
  satisfies invariant I1 with the tolerance \<open>1e-6\<close>.
\<close>

theorem tables_row_stochastic:
  "(list_all (\<lambda>x. 0 \<le> x) initial \<and> sum_list initial = 1) \<and>
   length transition = 5 \<and>
   list_all (\<lambda>r. list_all (\<lambda>x. 0 \<le> x) r \<and> sum_list r = 1) transition \<and>
   length emission = 6 \<and>
   list_all (\<lambda>r. list_all (\<lambda>x. 0 \<le> x) r \<and> sum_list r = 1) emission \<and>
   stochastic_row (1 / 10 ^ 6) initial \<and>
   list_all (stochastic_row (1 / 10 ^ 6)) transition \<and>
   list_all (stochastic_row (1 / 10 ^ 6)) emission"
  by (simp add: stochastic_row_def initial_def transition_def emission_def)

section \<open>Well-formed trajectories\<close>

text \<open>
  Claim C1. Let the sampler only return indices of positive probability in the vector
  it is given, let \<open>initial\<close> have 6 entries, every row of \<open>transition\<close> 6 and
  every row of \<open>emission\<close> 15. Then for every call of \<^verbatim>\<open>generate\<close> that returns,
  \<open>h_total\<close> ends with 5, the index of \<^verbatim>\<open><EOS>\<close>, 5 occurs nowhere before, every
  element of \<open>h_total\<close> is below 6 and every element of \<open>v_total\<close> is below 15.
\<close>

theorem generate_well_formed:
  assumes "positive_support choice"
    and "length ini = 6"
    and "list_all (\<lambda>r. length r = 6) tr"
    and "list_all (\<lambda>r. length r = 15) em"
    and "generate choice ini tr em s = Some (Inr (h_total, v_total, s'))"
  shows "last h_total = 5 \<and> 5 \<notin> set (butlast h_total) \<and>
         list_all (\<lambda>h. h < 6) h_total \<and> list_all (\<lambda>v. v < 15) v_total"
proof -
  from generate_trace[OF assms(1) assms(5)]
  have ne: "h_total \<noteq> []" and len: "length v_total = length h_total"
    and lst: "last h_total = 5" and no5: "5 \<notin> set (butlast h_total)"
    and p0: "positive_at ini (hd h_total)"
    and ptr: "\<And>i. Suc i < length h_total \<Longrightarrow>
        h_total ! i < length tr \<and> positive_at (tr ! (h_total ! i)) (h_total ! Suc i)"
    and pem: "\<And>i. i < length h_total \<Longrightarrow>
        h_total ! i < length em \<and> positive_at (em ! (h_total ! i)) (v_total ! i)"
    by blast+
  have trow: "length (tr ! k) = 6" if "k < length tr" for k
    using assms(3) that by (simp add: list_all_length)
  have erow: "length (em ! k) = 15" if "k < length em" for k
    using assms(4) that by (simp add: list_all_length)
  have hs: "h_total ! i < 6" if "i < length h_total" for i
  proof (cases i)
    case 0
    with p0 ne assms(2) show ?thesis by (simp add: positive_at_def hd_conv_nth)
  next
    case (Suc j)
    with that ptr[of j] trow[of "h_total ! j"] show ?thesis by (simp add: positive_at_def)
  qed
  have vs: "v_total ! i < 15" if "i < length v_total" for i
    using that len pem[of i] erow[of "h_total ! i"] by (simp add: positive_at_def)
  from lst no5 hs vs show ?thesis by (simp add: list_all_length)
qed

theorem generate_well_formed_witness:
  "positive_support scripted \<and> length initial = 6 \<and>
   list_all (\<lambda>r. length r = 6) transition \<and> list_all (\<lambda>r. length r = 15) emission \<and>
   generate scripted initial transition emission [0, 0, 3, 4, 4, 13, 5, 14]
     = Some (Inr ([0, 3, 4, 5], [0, 4, 13, 14], [])) \<and>
   last [0, 3, 4, 5::nat] = 5 \<and> 5 \<notin> set (butlast [0, 3, 4, 5::nat]) \<and>
   list_all (\<lambda>h. h < 6) [0, 3, 4, 5::nat] \<and> list_all (\<lambda>v. v < 15) [0, 4, 13, 14::nat]"
proof -
  have a: "length initial = 6" by (simp add: initial_def)
  have b: "list_all (\<lambda>r. length r = 6) transition" by (simp add: transition_def)
  have c: "list_all (\<lambda>r. length r = 15) emission" by (simp add: emission_def)
  from generate_well_formed[OF positive_support_scripted a b c scenario_run]
    positive_support_scripted a b c scenario_run
  show ?thesis by blast
qed

text \<open>
  Claim C10. For every call of \<^verbatim>\<open>generate\<close> that returns, whatever the sampler and
  the tables, the two lists have the same length, which is at least 1.
\<close>

theorem generate_lengths:
  assumes "generate choice ini tr em s = Some (Inr (h_total, v_total, s'))"
  shows "length h_total = length v_total \<and> 1 \<le> length v_total"
proof -
  from assms obtain h0 s1 vs0 s2 v where
    loop: "generate_loop choice tr em (length ini) (length (hd em)) h0 [h0] [] s1
       = Some (Inr (5, h_total, vs0, s2))"
    and vs: "v_total = vs0 @ [v]"
    by (rule generate_Inr_elim)
  have "5 = (5::nat) \<and> length h_total = Suc (length vs0)"
    by (rule generate_loop_returns[where I = "\<lambda>h hs vs. length hs = Suc (length vs)", OF loop])
      simp_all
  with vs show ?thesis by simp
qed

theorem generate_lengths_witness:
  "generate scripted initial transition emission [0, 0, 3, 4, 4, 13, 5, 14]
     = Some (Inr ([0, 3, 4, 5], [0, 4, 13, 14], [])) \<and>
   length [0, 3, 4, 5::nat] = length [0, 4, 13, 14::nat] \<and>
   1 \<le> length [0, 4, 13, 14::nat]"
  using scenario_run generate_lengths[OF scenario_run] by simp

section \<open>Rows with a single positive entry\<close>

text \<open>
  Claim C8. With a sampler that only returns indices of positive probability, on the
  notebook's tables: every draw from the transition row of Object (4) returns
  \<^verbatim>\<open><EOS>\<close> (5), and every draw from the emission row of \<^verbatim>\<open><EOS>\<close> returns "."
  (14), whatever the random state; and in every trajectory \<^verbatim>\<open>generate\<close> returns, a
  state 4 is followed by the state 5, and the observation of a state 5 is 14.
\<close>

theorem object_row_is_deterministic:
  assumes pos: "positive_support choice"
  shows "(choice s n (transition ! 4) = Some (h', s1) \<longrightarrow> h' = 5) \<and>
         (choice t m (emission ! 5) = Some (v, t1) \<longrightarrow> v = 14) \<and>
         (generate choice initial transition emission s0 = Some (Inr (h_total, v_total, s')) \<longrightarrow>
            (\<forall>i<length h_total.
               (h_total ! i = 4 \<longrightarrow> Suc i < length h_total \<and> h_total ! Suc i = 5) \<and>
               (h_total ! i = 5 \<longrightarrow> v_total ! i = 14)))"
proof -
  have a: "h' = 5" if "choice s n (transition ! 4) = Some (h', s1)"
    using positive_supportD[OF pos that] by (rule transition_row_Object)
  have b: "v = 14" if "choice t m (emission ! 5) = Some (v, t1)"
    using positive_supportD[OF pos that] by (rule emission_row_EOS)
  have c: "Suc i < length h_total \<and> h_total ! Suc i = 5"
    if run: "generate choice initial transition emission s0 = Some (Inr (h_total, v_total, s'))"
      and i: "i < length h_total" and hi: "h_total ! i = 4" for i
  proof -
    from generate_trace[OF pos run]
    have ne: "h_total \<noteq> []" and lst: "last h_total = 5"
      and ptr: "\<And>i. Suc i < length h_total \<Longrightarrow>
          positive_at (transition ! (h_total ! i)) (h_total ! Suc i)"
      by blast+
    have "Suc i \<noteq> length h_total"
    proof
      assume "Suc i = length h_total"
      then have "i = length h_total - 1" by simp
      with ne lst have "h_total ! i = 5" by (simp add: last_conv_nth)
      with hi show False by simp
    qed
    with i have si: "Suc i < length h_total" by simp
    from ptr[OF si] hi have "h_total ! Suc i = 5" by (simp add: transition_row_Object)
    with si show ?thesis by simp
  qed
  have d: "v_total ! i = 14"
    if run: "generate choice initial transition emission s0 = Some (Inr (h_total, v_total, s'))"
      and i: "i < length h_total" and hi: "h_total ! i = 5" for i
  proof -
    from generate_trace[OF pos run] i
    have "positive_at (emission ! (h_total ! i)) (v_total ! i)" by blast
    with hi show ?thesis by (simp add: emission_row_EOS)
  qed
  from a b c d show ?thesis by blast
qed

theorem object_row_is_deterministic_witness:
  "positive_support scripted \<and>
   scripted [5] 6 (transition ! 4) = Some (5, []) \<and>
   scripted [14] 15 (emission ! 5) = Some (14, []) \<and>
   generate scripted initial transition emission [0, 0, 3, 4, 4, 13, 5, 14]
     = Some (Inr ([0, 3, 4, 5], [0, 4, 13, 14], [])) \<and>
   [0, 3, 4, 5::nat] ! 2 = 4 \<and> [0, 3, 4, 5::nat] ! Suc 2 = 5 \<and>
   [0, 3, 4, 5::nat] ! 3 = 5 \<and> [0, 4, 13, 14::nat] ! 3 = 14"
proof -
  have a: "scripted [5] 6 (transition ! 4) = Some (5, [])"
    by (simp add: accepts_def positive_at_def transition_def)
  have b: "scripted [14] 15 (emission ! 5) = Some (14, [])"
    by (simp add: accepts_def positive_at_def emission_def)
  from object_row_is_deterministic[OF positive_support_scripted,
      of "[5]" 6 5 "[]" "[14]" 15 14 "[]" "[0, 0, 3, 4, 4, 13, 5, 14]"
         "[0, 3, 4, 5]" "[0, 4, 13, 14]" "[]"]
    positive_support_scripted a b scenario_run
  show ?thesis by simp
qed

section \<open>No lookup outside the transition table\<close>

text \<open>
  Claim C9. Let the sampler only return indices of positive probability, and let the
  tables have the shapes of the notebook's: 6 entries in \<open>initial\<close>, 5 rows of 6
  entries in \<open>transition\<close>, 6 rows in \<open>emission\<close>. Then no call of \<^verbatim>\<open>generate\<close>
  raises \<^verbatim>\<open>IndexError\<close>: \<open>transition[h]\<close> is only read in the loop body, where
  \<open>h\<close> is a state below 6 other than 5, although \<open>transition\<close> has no row 5.
\<close>

theorem transition_never_out_of_bounds:
  assumes pos: "positive_support choice"
    and ini: "length ini = 6"
    and tr5: "length tr = 5"
    and trows: "list_all (\<lambda>r. length r = 6) tr"
    and em6: "length em = 6"
  shows "generate choice ini tr em s \<noteq> Some (Inl IndexError)"
proof
  assume bad: "generate choice ini tr em s = Some (Inl IndexError)"
  from em6 obtain r rest where em: "em = r # rest" by (cases em) simp_all
  note bad' = bad[unfolded em generate_unfold]
  from bad' obtain a0 where a0: "choice s (length ini) ini = Some a0"
    by (cases "choice s (length ini) ini") simp_all
  obtain h0 s1 where c0: "a0 = (h0, s1)" by (cases a0)
  from pos a0 c0 have "positive_at ini h0" by (simp add: positive_supportD)
  with ini have h0: "h0 < 6" by (simp add: positive_at_def)
  let ?loop = "generate_loop choice tr (r # rest) (length ini) (length r) h0 [h0] [] s1"
  have step: "h2 < 6"
    if "h < length tr" and "choice s1 ns (tr ! h) = Some (h2, s2)" for h s1 ns h2 s2
  proof -
    from pos that(2) have "positive_at (tr ! h) h2" by (rule positive_supportD)
    moreover from trows that(1) have "length (tr ! h) = 6" by (simp add: list_all_length)
    ultimately show ?thesis by (simp add: positive_at_def)
  qed
  from bad' a0 c0 obtain y where y: "?loop = Some y" by (cases ?loop) simp_all
  show False
  proof (cases y)
    case (Inl e)
    with bad' a0 c0 y have "e = IndexError" by simp
    with y Inl have run: "?loop = Some (Inl IndexError)" by simp
    have "\<exists>(h::nat) (hs::nat list) (vs::nat list). h < 6 \<and> h \<noteq> 5 \<and> \<not> (h < length (r # rest) \<and> h < length tr)"
      by (rule generate_loop_IndexError[where I = "\<lambda>h hs vs. h < 6", OF run h0])
        (rule step; assumption)
    with em em6 tr5 show False by auto
  next
    case (Inr x)
    obtain h' hs vs s2 where x: "x = (h', hs, vs, s2)" by (cases x)
    from generate_loop_returns[OF y[unfolded Inr x], of "\<lambda>_ _ _. True"] have "h' = 5" by simp
    with bad' a0 c0 y Inr x em em6 show False
      by (simp add: row_at_def split: option.splits prod.splits)
  qed
qed

theorem transition_never_out_of_bounds_witness:
  "positive_support scripted \<and> length initial = 6 \<and> length transition = 5 \<and>
   list_all (\<lambda>r. length r = 6) transition \<and> length emission = 6 \<and>
   generate scripted initial transition emission [0, 0, 3, 4, 4, 13, 5, 14]
     \<noteq> Some (Inl IndexError)"
proof -
  have a: "length initial = 6" by (simp add: initial_def)
  have b: "length transition = 5" by (simp add: transition_def)
  have c: "list_all (\<lambda>r. length r = 6) transition" by (simp add: transition_def)
  have d: "length emission = 6" by (simp add: emission_def)
  from transition_never_out_of_bounds[OF positive_support_scripted a b c d]
    positive_support_scripted a b c d
  show ?thesis by blast
qed

section \<open>Determinism in the random source\<close>

lemma same_drawsD:
  assumes "same_draws c1 c2 R" and "R s t"
  shows "(c1 s n p = None \<and> c2 t n p = None) \<or>
         (\<exists>i s' t'. c1 s n p = Some (i, s') \<and> c2 t n p = Some (i, t') \<and> R s' t')"
  using assms unfolding same_draws_def by blast

lemma same_draws_sym: "same_draws c1 c2 R \<Longrightarrow> same_draws c2 c1 (\<lambda>t s. R s t)"
  unfolding same_draws_def by blast

text \<open>
  A run of the loop with one sampler is matched, step by step, by the run with a sampler
  that produces the same draws.
\<close>

lemma generate_loop_sim:
  fixes c1 :: "'s sampler" and c2 :: "'t sampler"
  assumes sd: "same_draws c1 c2 R"
    and run: "generate_loop c1 tr em ns nw h hs vs s = Some y"
    and rel: "R s t"
  shows "(\<exists>e. y = Inl e \<and> generate_loop c2 tr em ns nw h hs vs t = Some (Inl e)) \<or>
         (\<exists>h' hs' vs' s' t'. y = Inr (h', hs', vs', s') \<and> R s' t' \<and>
            generate_loop c2 tr em ns nw h hs vs t = Some (Inr (h', hs', vs', t')))"
    (is "?Q tr em ns nw h hs vs t y")
proof -
  have aux: "generate_loop c tr em ns nw h hs vs s = Some y \<Longrightarrow>
     c = c1 \<longrightarrow> (\<forall>t. R s t \<longrightarrow> ?Q tr em ns nw h hs vs t y)"
    for c tr em ns nw h hs vs s y
  proof (erule generate_loop.raw_induct[rotated], goal_cases)
    case (1 f c tr em ns nw h hs vs s y)
    show ?case
    proof (intro impI allI)
      fix t
      assume c: "c = c1" and rel: "R s t"
      have body: "(if h \<noteq> 5 then
            (case row_at em h of
               Inl e \<Rightarrow> Some (Inl e)
             | Inr pe \<Rightarrow>
                 (case c1 s nw pe of
                    None \<Rightarrow> Some (Inl ValueError)
                  | Some (v, s1) \<Rightarrow>
                      (case row_at tr h of
                         Inl e \<Rightarrow> Some (Inl e)
                       | Inr pt \<Rightarrow>
                           (case c1 s1 ns pt of
                              None \<Rightarrow> Some (Inl ValueError)
                            | Some (h', s2) \<Rightarrow>
                                f c1 tr em ns nw h' (hs @ [h']) (vs @ [v]) s2))))
          else Some (Inr (h, hs, vs, s))) = Some y"
        using 1(2) unfolding c by (simp add: state2id_EOS)
      show "?Q tr em ns nw h hs vs t y"
      proof (cases "h = 5")
        case True
        with body rel show ?thesis by (auto simp: generate_loop_unfold)
      next
        case h5: False
        show ?thesis
        proof (cases "h < length em")
          case False
          with body h5 show ?thesis by (auto simp: generate_loop_unfold row_at_def)
        next
          case hem: True
          from same_drawsD[OF sd rel, of nw "em ! h"] show ?thesis
          proof (elim disjE conjE exE)
            assume "c1 s nw (em ! h) = None" "c2 t nw (em ! h) = None"
            with body h5 hem show ?thesis by (auto simp: generate_loop_unfold row_at_def)
          next
            fix v s1 t1
            assume d1: "c1 s nw (em ! h) = Some (v, s1)" "c2 t nw (em ! h) = Some (v, t1)"
              and r1: "R s1 t1"
            show ?thesis
            proof (cases "h < length tr")
              case False
              with body h5 hem d1 show ?thesis by (auto simp: generate_loop_unfold row_at_def)
            next
              case htr: True
              from same_drawsD[OF sd r1, of ns "tr ! h"] show ?thesis
              proof (elim disjE conjE exE)
                assume "c1 s1 ns (tr ! h) = None" "c2 t1 ns (tr ! h) = None"
                with body h5 hem htr d1 show ?thesis
                  by (auto simp: generate_loop_unfold row_at_def)
              next
                fix h2 s2 t2
                assume d2: "c1 s1 ns (tr ! h) = Some (h2, s2)"
                    "c2 t1 ns (tr ! h) = Some (h2, t2)"
                  and r2: "R s2 t2"
                from body h5 hem htr d1 d2
                have rec: "f c1 tr em ns nw h2 (hs @ [h2]) (vs @ [v]) s2 = Some y"
                  by (simp add: row_at_def)
                from 1(1)[OF rec] r2 have "?Q tr em ns nw h2 (hs @ [h2]) (vs @ [v]) t2 y"
                  by blast
                moreover have "generate_loop c2 tr em ns nw h hs vs t
                    = generate_loop c2 tr em ns nw h2 (hs @ [h2]) (vs @ [v]) t2"
                  using h5 hem htr d1 d2
                  by (subst generate_loop_unfold) (simp add: row_at_def)
                ultimately show ?thesis by simp
              qed
            qed
          qed
        qed
      qed
    qed
  qed
  from aux[OF run] rel show ?thesis by blast
qed

lemma generate_sim:
  fixes c1 :: "'s sampler" and c2 :: "'t sampler"
  assumes sd: "same_draws c1 c2 R"
    and rel: "R s t"
    and run: "generate c1 ini tr em s = Some y"
  shows "(\<exists>e. y = Inl e \<and> generate c2 ini tr em t = Some (Inl e)) \<or>
         (\<exists>hs vs s' t'. y = Inr (hs, vs, s') \<and> R s' t' \<and>
            generate c2 ini tr em t = Some (Inr (hs, vs, t')))"
proof (cases em)
  case Nil
  with run show ?thesis by (auto simp: generate_def)
next
  case (Cons r rest)
  note run' = run[unfolded Cons generate_unfold]
  from same_drawsD[OF sd rel, of "length ini" ini] show ?thesis
  proof (elim disjE conjE exE)
    assume "c1 s (length ini) ini = None" "c2 t (length ini) ini = None"
    with run' show ?thesis unfolding Cons generate_unfold by auto
  next
    fix h0 s1 t1
    assume d0: "c1 s (length ini) ini = Some (h0, s1)" "c2 t (length ini) ini = Some (h0, t1)"
      and r1: "R s1 t1"
    let ?l1 = "generate_loop c1 tr (r # rest) (length ini) (length r) h0 [h0] [] s1"
    let ?l2 = "generate_loop c2 tr (r # rest) (length ini) (length r) h0 [h0] [] t1"
    from run' d0 obtain yl where yl: "?l1 = Some yl" by (cases ?l1) simp_all
    from generate_loop_sim[OF sd yl r1] show ?thesis
    proof (elim disjE conjE exE)
      fix e
      assume "yl = Inl e" "?l2 = Some (Inl e)"
      with run' d0 yl show ?thesis unfolding Cons generate_unfold by auto
    next
      fix h' hs' vs' s2 t2
      assume y2: "yl = Inr (h', hs', vs', s2)" and r2: "R s2 t2"
        and l2: "?l2 = Some (Inr (h', hs', vs', t2))"
      show ?thesis
      proof (cases "h' < length (r # rest)")
        case False
        with run' d0 yl y2 l2 show ?thesis unfolding Cons generate_unfold
          by (auto simp: row_at_def)
      next
        case True
        from same_drawsD[OF sd r2, of "length r" "(r # rest) ! h'"] show ?thesis
        proof (elim disjE conjE exE)
          assume "c1 s2 (length r) ((r # rest) ! h') = None"
            "c2 t2 (length r) ((r # rest) ! h') = None"
          with run' d0 yl y2 l2 True show ?thesis unfolding Cons generate_unfold
            by (auto simp: row_at_def)
        next
          fix v s3 t3
          assume "c1 s2 (length r) ((r # rest) ! h') = Some (v, s3)"
            "c2 t2 (length r) ((r # rest) ! h') = Some (v, t3)" "R s3 t3"
          with run' d0 yl y2 l2 True show ?thesis unfolding Cons generate_unfold
            by (auto simp: row_at_def)
        qed
      qed
    qed
  qed
qed

text \<open>The scripted sampler and the cursor over the same script produce the same draws.\<close>

lemma same_draws_cursor: "same_draws scripted cursor_scripted (\<lambda>s (k, xs). s = drop k xs)"
  unfolding same_draws_def
proof (intro allI impI)
  fix s :: "nat list" and t :: "nat \<times> nat list" and n p
  obtain k xs where t: "t = (k, xs)" by (cases t)
  assume "case t of (k, xs) \<Rightarrow> s = drop k xs"
  with t have s: "s = drop k xs" by simp
  show "(scripted s n p = None \<and> cursor_scripted t n p = None) \<or>
        (\<exists>i s' t'. scripted s n p = Some (i, s') \<and> cursor_scripted t n p = Some (i, t') \<and>
           (case t' of (k, xs) \<Rightarrow> s' = drop k xs))"
  proof (cases "k < length xs")
    case True
    then have "s = xs ! k # drop (Suc k) xs" by (simp add: s Cons_nth_drop_Suc)
    with True t show ?thesis by simp
  next
    case False
    with s t show ?thesis by simp
  qed
qed

text \<open>
  Claim C7. Take two calls of \<^verbatim>\<open>generate\<close> on the same tables, each with its own
  sampler and random state. If the two samplers produce the same draws from these
  states on (identical seeding is the case of one sampler and one state, with equality
  as the relation), the two calls hand back the same: the same two lists, or the same
  error, or neither returns.
\<close>

theorem generate_deterministic:
  fixes c1 :: "'s sampler" and c2 :: "'t sampler"
  assumes sd: "same_draws c1 c2 R" and rel: "R s t"
  shows "returned (generate c1 ini tr em s) = returned (generate c2 ini tr em t)"
proof (cases "generate c1 ini tr em s")
  case None
  have "generate c2 ini tr em t = None"
  proof (cases "generate c2 ini tr em t")
    case (Some y)
    from generate_sim[OF same_draws_sym[OF sd] rel Some] None show ?thesis by auto
  qed simp
  with None show ?thesis by (simp add: returned_def)
next
  case (Some y)
  from generate_sim[OF sd rel Some] Some show ?thesis
    by (auto simp: returned_def)
qed

theorem generate_deterministic_witness:
  "same_draws scripted cursor_scripted (\<lambda>s (k, xs). s = drop k xs) \<and>
   [0, 0, 3, 4, 4, 13, 5, 14] = drop 2 [9, 9, 0, 0, 3, 4, 4, 13, 5, 14::nat] \<and>
   returned (generate scripted initial transition emission [0, 0, 3, 4, 4, 13, 5, 14])
     = Some (Inr ([0, 3, 4, 5], [0, 4, 13, 14])) \<and>
   returned (generate cursor_scripted initial transition emission
       (2, [9, 9, 0, 0, 3, 4, 4, 13, 5, 14]))
     = Some (Inr ([0, 3, 4, 5], [0, 4, 13, 14]))"
proof -
  have d: "[0, 0, 3, 4, 4, 13, 5, 14] = drop 2 [9, 9, 0, 0, 3, 4, 4, 13, 5, 14::nat]"
    by simp
  have r: "returned (generate scripted initial transition emission [0, 0, 3, 4, 4, 13, 5, 14])
     = Some (Inr ([0, 3, 4, 5], [0, 4, 13, 14]))"
    unfolding scenario_run by (simp add: returned_def)
  have g: "returned (generate scripted initial transition emission [0, 0, 3, 4, 4, 13, 5, 14])
     = returned (generate cursor_scripted initial transition emission
       (2, [9, 9, 0, 0, 3, 4, 4, 13, 5, 14]))"
    apply (rule generate_deterministic[where R = "\<lambda>s (k, xs). s = drop k xs"])
     apply (rule same_draws_cursor)
    apply simp
    done
  have c: "returned (generate cursor_scripted initial transition emission
       (2, [9, 9, 0, 0, 3, 4, 4, 13, 5, 14]))
     = Some (Inr ([0, 3, 4, 5], [0, 4, 13, 14]))"
    using g[symmetric] r by (rule trans)
  from same_draws_cursor d r c show ?thesis by blast
qed

section \<open>The algorithm of the specification\<close>

lemma zip_snoc_last:
  assumes "length hs = Suc (length vs)"
  shows "zip hs (vs @ [v]) = zip hs vs @ [(last hs, v)]"
    and "zip (hs @ [h2]) (vs @ [v]) = zip hs vs @ [(last hs, v)]"
proof -
  from assms have ne: "hs \<noteq> []" by auto
  define bs where "bs = butlast hs"
  from ne have hs: "hs = bs @ [last hs]" by (simp add: bs_def)
  from assms hs have lb: "length bs = length vs" by (metis length_append_singleton nat.inject)
  have a: "zip (bs @ [last hs]) (vs @ [v]) = zip bs vs @ [(last hs, v)]"
    using lb by simp
  have b: "zip (bs @ [last hs]) vs = zip bs vs"
    using lb by (simp add: zip_append1)
  from a b hs show "zip hs (vs @ [v]) = zip hs vs @ [(last hs, v)]" by metis
  have "zip ((bs @ [last hs]) @ [h2]) (vs @ [v]) = zip (bs @ [last hs]) (vs @ [v])"
    using lb by (simp add: zip_append1)
  with a b hs show "zip (hs @ [h2]) (vs @ [v]) = zip hs vs @ [(last hs, v)]" by metis
qed

text \<open>
  The loop of the code against the repetition of the specification. The code draws the
  observation of \<^verbatim>\<open><EOS>\<close> after its loop, the specification inside it, so a run of
  the code's loop followed by that draw is a run of the repetition; and when the
  repetition returns, the code's loop does.
\<close>

lemma loop_refines_forward:
  fixes choice :: "'s sampler"
  assumes trs: "list_all (\<lambda>r. length r = ns) tr"
    and ems: "list_all (\<lambda>r. length r = nw) em"
    and run: "generate_loop choice tr em ns nw h hs vs s = Some y"
    and len: "length hs = Suc (length vs)"
    and lst: "last hs = h"
  shows "spec_repeat choice tr em 5 h (zip hs vs) s =
     (case y of
        Inl e \<Rightarrow> Some (Inl e)
      | Inr (h', hs', vs', s2) \<Rightarrow>
          (case row_at em h' of
             Inl e \<Rightarrow> Some (Inl e)
           | Inr pe \<Rightarrow>
               (case choice s2 nw pe of
                  None \<Rightarrow> Some (Inl ValueError)
                | Some (v, s3) \<Rightarrow> Some (Inr (zip hs' (vs' @ [v]), s3)))))"
    (is "_ = ?after y")
proof -
  have trow: "length (tr ! k) = ns" if "k < length tr" for k
    using trs that by (simp add: list_all_length)
  have erow: "length (em ! k) = nw" if "k < length em" for k
    using ems that by (simp add: list_all_length)
  have aux: "generate_loop c t e n m h hs vs s = Some y \<Longrightarrow>
     c = choice \<and> t = tr \<and> e = em \<and> n = ns \<and> m = nw \<and>
     length hs = Suc (length vs) \<and> last hs = h \<longrightarrow>
       spec_repeat choice tr em 5 h (zip hs vs) s = ?after y"
    for c t e n m h hs vs s y
  proof (erule generate_loop.raw_induct[rotated], goal_cases)
    case (1 f c t e n m h hs vs s y)
    show ?case
    proof (intro impI, elim conjE)
      assume eqs: "c = choice" "t = tr" "e = em" "n = ns" "m = nw"
        and len: "length hs = Suc (length vs)" and lst: "last hs = h"
      have body: "(if h \<noteq> 5 then
            (case row_at em h of
               Inl e \<Rightarrow> Some (Inl e)
             | Inr pe \<Rightarrow>
                 (case choice s nw pe of
                    None \<Rightarrow> Some (Inl ValueError)
                  | Some (v, s1) \<Rightarrow>
                      (case row_at tr h of
                         Inl e \<Rightarrow> Some (Inl e)
                       | Inr pt \<Rightarrow>
                           (case choice s1 ns pt of
                              None \<Rightarrow> Some (Inl ValueError)
                            | Some (h', s2) \<Rightarrow>
                                f choice tr em ns nw h' (hs @ [h']) (vs @ [v]) s2))))
          else Some (Inr (h, hs, vs, s))) = Some y"
        using 1(2) unfolding eqs by (simp add: state2id_EOS)
      show "spec_repeat choice tr em 5 h (zip hs vs) s = ?after y"
      proof (cases "h < length em")
        case False
        with body show ?thesis
          by (subst spec_repeat.simps) (auto simp: row_at_def split: if_splits)
      next
        case hem: True
        show ?thesis
        proof (cases "choice s nw (em ! h)")
          case None
          with body hem erow[OF hem] show ?thesis
            by (subst spec_repeat.simps) (auto simp: row_at_def split: if_splits)
        next
          case (Some a)
          obtain v s1 where a: "a = (v, s1)" by (cases a)
          note d1 = Some[unfolded a]
          show ?thesis
          proof (cases "h = 5")
            case True
            with body hem erow[OF hem] d1 lst zip_snoc_last(1)[OF len, of v] show ?thesis
              by (subst spec_repeat.simps) (auto simp: row_at_def)
          next
            case h5: False
            show ?thesis
            proof (cases "h < length tr")
              case False
              with body h5 hem erow[OF hem] d1 show ?thesis
                by (subst spec_repeat.simps) (auto simp: row_at_def)
            next
              case htr: True
              show ?thesis
              proof (cases "choice s1 ns (tr ! h)")
                case None
                with body h5 hem htr erow[OF hem] trow[OF htr] d1 show ?thesis
                  by (subst spec_repeat.simps) (auto simp: row_at_def)
              next
                case (Some b)
                obtain h2 s2 where b: "b = (h2, s2)" by (cases b)
                note d2 = Some[unfolded b]
                from body h5 hem htr d1 d2
                have rec: "f choice tr em ns nw h2 (hs @ [h2]) (vs @ [v]) s2 = Some y"
                  by (simp add: row_at_def)
                from 1(1)[OF rec] len
                have "spec_repeat choice tr em 5 h2 (zip (hs @ [h2]) (vs @ [v])) s2 = ?after y"
                  by simp
                then have "spec_repeat choice tr em 5 h2 (zip hs vs @ [(h, v)]) s2 = ?after y"
                  using zip_snoc_last(2)[OF len, of h2 v] lst by simp
                moreover have "spec_repeat choice tr em 5 h (zip hs vs) s
                    = spec_repeat choice tr em 5 h2 (zip hs vs @ [(h, v)]) s2"
                  using h5 hem htr erow[OF hem] trow[OF htr] d1 d2
                  by (subst spec_repeat.simps) (simp add: row_at_def)
                ultimately show ?thesis by simp
              qed
            qed
          qed
        qed
      qed
    qed
  qed
  from aux[OF run] len lst show ?thesis by blast
qed

lemma loop_refines_backward:
  fixes choice :: "'s sampler"
  assumes trs: "list_all (\<lambda>r. length r = ns) tr"
    and ems: "list_all (\<lambda>r. length r = nw) em"
    and run: "spec_repeat choice tr em 5 h traj s = Some z"
  shows "\<exists>y. generate_loop choice tr em ns nw h hs vs s = Some y"
proof -
  have trow: "length (tr ! k) = ns" if "k < length tr" for k
    using trs that by (simp add: list_all_length)
  have erow: "length (em ! k) = nw" if "k < length em" for k
    using ems that by (simp add: list_all_length)
  have aux: "spec_repeat c t e ti h traj s = Some z \<Longrightarrow>
     c = choice \<and> t = tr \<and> e = em \<and> ti = 5 \<longrightarrow>
       (\<forall>hs vs. \<exists>y. generate_loop choice tr em ns nw h hs vs s = Some y)"
    for c t e ti h traj s z
  proof (erule spec_repeat.raw_induct[rotated], goal_cases)
    case (1 f c t e ti h traj s z)
    show ?case
    proof (intro impI allI, elim conjE)
      fix hs vs
      assume eqs: "c = choice" "t = tr" "e = em" "ti = 5"
      note body = 1(2)[unfolded eqs]
      show "\<exists>y. generate_loop choice tr em ns nw h hs vs s = Some y"
      proof (cases "h = 5")
        case True
        then show ?thesis by (subst generate_loop_unfold) simp
      next
        case h5: False
        show ?thesis
        proof (cases "h < length em")
          case False
          with h5 show ?thesis by (subst generate_loop_unfold) (simp add: row_at_def)
        next
          case hem: True
          show ?thesis
          proof (cases "choice s nw (em ! h)")
            case None
            with h5 hem show ?thesis by (subst generate_loop_unfold) (simp add: row_at_def)
          next
            case (Some a)
            obtain v s1 where a: "a = (v, s1)" by (cases a)
            note d1 = Some[unfolded a]
            show ?thesis
            proof (cases "h < length tr")
              case False
              with h5 hem d1 show ?thesis
                by (subst generate_loop_unfold) (simp add: row_at_def)
            next
              case htr: True
              show ?thesis
              proof (cases "choice s1 ns (tr ! h)")
                case None
                with h5 hem htr d1 show ?thesis
                  by (subst generate_loop_unfold) (simp add: row_at_def)
              next
                case (Some b)
                obtain h2 s2 where b: "b = (h2, s2)" by (cases b)
                note d2 = Some[unfolded b]
                from body h5 hem htr erow[OF hem] trow[OF htr] d1 d2
                have rec: "f choice tr em 5 h2 (traj @ [(h, v)]) s2 = Some z"
                  by (simp add: row_at_def)
                from 1(1)[OF rec]
                obtain y where "generate_loop choice tr em ns nw h2 (hs @ [h2]) (vs @ [v]) s2 = Some y"
                  by blast
                moreover have "generate_loop choice tr em ns nw h hs vs s
                    = generate_loop choice tr em ns nw h2 (hs @ [h2]) (vs @ [v]) s2"
                  using h5 hem htr d1 d2
                  by (subst generate_loop_unfold) (simp add: row_at_def)
                ultimately show ?thesis by simp
              qed
            qed
          qed
        qed
      qed
    qed
  qed
  from aux[OF run] show ?thesis by blast
qed

text \<open>
  Claim C2. On tables of consistent shapes (\<open>emission\<close> has a row, its rows have one
  length, and the rows of \<open>transition\<close> have the length of \<open>initial\<close>),
  \<^verbatim>\<open>generate\<close> is the algorithm of the specification with terminal index 5: the same
  trajectory of (state, observation) pairs and the same random state after it, the same
  error, or both run for ever. In particular, with a sampler that only returns indices
  of positive probability, the two lists of a call that returns have the same length and
  the i-th observation has positive probability in the emission row of the i-th state.
\<close>

theorem generate_follows_algorithm:
  fixes choice :: "'s sampler"
  assumes ne: "em \<noteq> []"
    and trs: "list_all (\<lambda>r. length r = length ini) tr"
    and ems: "list_all (\<lambda>r. length r = length (hd em)) em"
  shows "trajectory_of (generate choice ini tr em s) = spec_generate choice ini tr em 5 s \<and>
    (positive_support choice \<longrightarrow>
     generate choice ini tr em s = Some (Inr (h_total, v_total, s')) \<longrightarrow>
       length v_total = length h_total \<and>
       (\<forall>i<length h_total. positive_at (em ! (h_total ! i)) (v_total ! i)))"
proof -
  from ne obtain r rest where em: "em = r # rest" by (cases em) simp_all
  have nw: "length (hd em) = length r" by (simp add: em)
  have eq: "trajectory_of (generate choice ini tr em s) = spec_generate choice ini tr em 5 s"
  proof (cases "choice s (length ini) ini")
    case None
    then show ?thesis by (simp add: em generate_unfold spec_generate_def trajectory_of_def)
  next
    case (Some a)
    obtain h0 s1 where a: "a = (h0, s1)" by (cases a)
    note d0 = Some[unfolded a]
    let ?loop = "generate_loop choice tr em (length ini) (length (hd em)) h0 [h0] [] s1"
    have spec: "spec_generate choice ini tr em 5 s = spec_repeat choice tr em 5 h0 [] s1"
      using d0 by (simp add: spec_generate_def)
    show ?thesis
    proof (cases ?loop)
      case None
      have "spec_repeat choice tr em 5 h0 [] s1 = None"
      proof (cases "spec_repeat choice tr em 5 h0 [] s1")
        case (Some z)
        from loop_refines_backward[OF trs ems Some, of "[h0]" "[]"] None show ?thesis by simp
      qed simp
      with None d0 spec show ?thesis
        by (simp add: em generate_unfold trajectory_of_def)
    next
      case (Some y)
      from loop_refines_forward[OF trs ems Some] 
      have "spec_repeat choice tr em 5 h0 [] s1 =
         (case y of
            Inl e \<Rightarrow> Some (Inl e)
          | Inr (h', hs', vs', s2) \<Rightarrow>
              (case row_at em h' of
                 Inl e \<Rightarrow> Some (Inl e)
               | Inr pe \<Rightarrow>
                   (case choice s2 (length (hd em)) pe of
                      None \<Rightarrow> Some (Inl ValueError)
                    | Some (v, s3) \<Rightarrow> Some (Inr (zip hs' (vs' @ [v]), s3)))))"
        by simp
      with Some d0 spec show ?thesis
        unfolding em generate_unfold
        by (simp add: trajectory_of_def split: sum.splits prod.splits option.splits)
    qed
  qed
  have tr: "length v_total = length h_total \<and>
       (\<forall>i<length h_total. positive_at (em ! (h_total ! i)) (v_total ! i))"
    if "positive_support choice" 
      and "generate choice ini tr em s = Some (Inr (h_total, v_total, s'))"
    using generate_trace[OF that] by blast
  from eq tr show ?thesis by blast
qed

theorem generate_follows_algorithm_witness:
  "emission \<noteq> [] \<and> list_all (\<lambda>r. length r = length initial) transition \<and>
   list_all (\<lambda>r. length r = length (hd emission)) emission \<and>
   positive_support scripted \<and>
   trajectory_of (generate scripted initial transition emission [0, 0, 3, 4, 4, 13, 5, 14])
     = Some (Inr ([(0, 0), (3, 4), (4, 13), (5, 14)], [])) \<and>
   spec_generate scripted initial transition emission 5 [0, 0, 3, 4, 4, 13, 5, 14]
     = Some (Inr ([(0, 0), (3, 4), (4, 13), (5, 14)], [])) \<and>
   length [0, 4, 13, 14::nat] = length [0, 3, 4, 5::nat] \<and>
   positive_at (emission ! 0) 0 \<and> positive_at (emission ! 3) 4 \<and>
   positive_at (emission ! 4) 13 \<and> positive_at (emission ! 5) 14"
proof -
  have a: "emission \<noteq> []" by (simp add: emission_def)
  have b: "list_all (\<lambda>r. length r = length initial) transition"
    by (simp add: initial_def transition_def)
  have c: "list_all (\<lambda>r. length r = length (hd emission)) emission"
    by (simp add: emission_def)
  note t = generate_follows_algorithm[OF a b c, of scripted "[0, 0, 3, 4, 4, 13, 5, 14]"
      "[0, 3, 4, 5]" "[0, 4, 13, 14]" "[]"]
  have d: "trajectory_of (generate scripted initial transition emission [0, 0, 3, 4, 4, 13, 5, 14])
     = Some (Inr ([(0, 0), (3, 4), (4, 13), (5, 14)], []))"
    unfolding scenario_run by (simp add: trajectory_of_def)
  from t have sg: "spec_generate scripted initial transition emission 5 [0, 0, 3, 4, 4, 13, 5, 14]
     = trajectory_of (generate scripted initial transition emission [0, 0, 3, 4, 4, 13, 5, 14])"
    by simp
  from sg d have e: "spec_generate scripted initial transition emission 5 [0, 0, 3, 4, 4, 13, 5, 14]
     = Some (Inr ([(0, 0), (3, 4), (4, 13), (5, 14)], []))"
    by (rule trans)
  from t positive_support_scripted scenario_run
  have p: "\<forall>i<length [0, 3, 4, 5::nat].
     positive_at (emission ! ([0, 3, 4, 5] ! i)) ([0, 4, 13, 14] ! i)"
    by blast
  have p0: "positive_at (emission ! 0) 0" using p[rule_format, of 0] by simp
  have p1: "positive_at (emission ! 3) 4" using p[rule_format, of 1] by simp
  have p2: "positive_at (emission ! 4) 13" using p[rule_format, of 2] by simp
  have p3: "positive_at (emission ! 5) 14" using p[rule_format, of 3] by simp
  have l: "length [0, 4, 13, 14::nat] = length [0, 3, 4, 5::nat]" by simp
  from a b c positive_support_scripted d e l p0 p1 p2 p3 show ?thesis by blast
qed

section \<open>An unreachable terminal state\<close>

lemma positive_support_first_positive: "positive_support first_positive"
  unfolding positive_support_def
proof (intro allI impI)
  fix s :: 'a and n p i s'
  assume "first_positive s n p = Some (i, s')"
  then have "List.find (\<lambda>i. 0 < p ! i) [0..<length p] = Some i"
    by (auto simp: first_positive_def split: if_splits)
  then show "positive_at p i"
    by (auto simp: find_Some_iff positive_at_def)
qed

lemma closed_transition_rows:
  "h < 2 \<Longrightarrow> positive_at (closed_transition ! h) j \<Longrightarrow> j < 2"
  by (auto simp: positive_at_def closed_transition_def nth_Cons less_Suc_eq numeral_2_eq_2
      split: nat.splits)

lemma initial_support: "positive_at initial i \<Longrightarrow> i < 2"
  by (auto simp: positive_at_def initial_def nth_Cons split: nat.splits)

lemma reachable_closed: "reachable initial closed_transition i \<Longrightarrow> i < 2"
proof (induction rule: reachable.induct)
  case (start i)
  then show ?case by (rule initial_support)
next
  case (step h j)
  then show ?case by (simp add: closed_transition_rows)
qed

lemma not_reachable_closed: "\<not> reachable initial closed_transition 5"
  using reachable_closed[of 5] by auto

lemma first_positive_emission:
  "first_positive s 15 (emission ! 0) = Some (0, s)"
  "first_positive s 15 (emission ! Suc 0) = Some (9, s)"
  by (simp_all add: first_positive_def accepts_def emission_def upt_rec)

lemma first_positive_closed:
  "first_positive s 6 (closed_transition ! 0) = Some (1, s)"
  "first_positive s 6 (closed_transition ! Suc 0) = Some (0, s)"
  by (simp_all add: first_positive_def accepts_def closed_transition_def upt_rec)

lemma first_positive_initial:
  "first_positive s 6 initial = Some (0, s)"
  by (simp add: first_positive_def accepts_def initial_def upt_rec)

lemma table_lengths: "length emission = 6" "length closed_transition = 5"
  by (simp_all add: emission_def closed_transition_def)

text \<open>
  On the closed table the sampler of first positive entries goes from Subject to
  Adjective and back, so the loop never returns.
\<close>

lemma closed_loop_never_returns:
  "generate_loop first_positive closed_transition emission 6 15 h hs vs s = Some y \<Longrightarrow>
   \<not> h < 2"
proof -
  have aux: "generate_loop c t e n m h hs vs s = Some y \<Longrightarrow>
     c = first_positive \<and> t = closed_transition \<and> e = emission \<and> n = 6 \<and> m = 15 \<and> h < 2
       \<longrightarrow> False"
    for c :: "'a sampler" and t e n m h hs vs s y
  proof (erule generate_loop.raw_induct[rotated], goal_cases)
    case (1 f c t e n m h hs vs s y)
    show ?case
    proof (intro impI, elim conjE)
      assume eqs: "c = first_positive" "t = closed_transition" "e = emission" "n = 6" "m = 15"
        and h: "h < 2"
      note body = 1(2)[unfolded eqs] and IH = 1(1)
      from h consider "h = 0" | "h = 1" by linarith
      then show False
      proof cases
        case 1
        with body have "f first_positive closed_transition emission 6 15 1 (hs @ [1]) (vs @ [0]) s
            = Some y"
          by (simp add: state2id_EOS row_at_def table_lengths first_positive_emission
              first_positive_closed)
        from IH[OF this] show False by simp
      next
        case 2
        with body have "f first_positive closed_transition emission 6 15 0 (hs @ [0]) (vs @ [9]) s
            = Some y"
          by (simp add: state2id_EOS row_at_def table_lengths first_positive_emission
              first_positive_closed)
        from IH[OF this] show False by simp
      qed
    qed
  qed
  assume "generate_loop first_positive closed_transition emission 6 15 h hs vs s = Some y"
  from aux[OF this] show ?thesis by blast
qed

text \<open>
  Claim C4 fails on the code. In \<open>closed_transition\<close> every row is a distribution and
  \<^verbatim>\<open><EOS>\<close> cannot be reached from the support of \<open>initial\<close>. With the sampler of
  first positive entries \<^verbatim>\<open>generate\<close> is not stopped by any check: it raises no error
  and returns nothing, it samples for ever.
\<close>

theorem unreachable_terminal_not_rejected:
  "\<not> reachable initial closed_transition 5 \<and>
   list_all (stochastic_row 0) closed_transition \<and>
   generate first_positive initial closed_transition emission () = None"
proof -
  have "generate_loop first_positive closed_transition emission 6 15 0 [0] [] () = None"
  proof (cases "generate_loop first_positive closed_transition emission 6 15 0 [0] [] ()")
    case (Some y)
    from closed_loop_never_returns[OF Some] show ?thesis by simp
  qed simp
  moreover have "emission \<noteq> []" "length initial = 6" "length (hd emission) = 15"
    by (simp_all add: emission_def initial_def)
  ultimately have "generate first_positive initial closed_transition emission () = None"
    by (simp add: generate_unfold_ne first_positive_initial)
  moreover have "list_all (stochastic_row 0) closed_transition"
    by (simp add: stochastic_row_def closed_transition_def)
  ultimately show ?thesis using not_reachable_closed by simp
qed

text \<open>
  Claim C4 as amended. \<^verbatim>\<open>generate\<close> makes no reachability check. When \<^verbatim>\<open><EOS>\<close> is
  not reachable by transitions of positive probability from the positive entries of
  \<open>initial\<close>, a call with a sampler that only returns indices of positive probability
  returns no trajectory: it raises an error while sampling, or it does not return.
\<close>

theorem unreachable_terminal_no_trajectory:
  assumes pos: "positive_support choice"
    and unr: "\<not> reachable ini tr 5"
  shows "generate choice ini tr em s = None \<or> (\<exists>e. generate choice ini tr em s = Some (Inl e))"
proof (cases "generate choice ini tr em s")
  case None
  then show ?thesis by simp
next
  case (Some y)
  show ?thesis
  proof (cases y)
    case (Inl e)
    with Some show ?thesis by simp
  next
    case (Inr x)
    obtain hs vs s' where x: "x = (hs, vs, s')" by (cases x)
    from generate_trace[OF pos Some[unfolded Inr x]]
    have ne: "hs \<noteq> []" and lst: "last hs = 5" and p0: "positive_at ini (hd hs)"
      and ptr: "\<And>i. Suc i < length hs \<Longrightarrow>
          hs ! i < length tr \<and> positive_at (tr ! (hs ! i)) (hs ! Suc i)"
      by blast+
    have "reachable ini tr (hs ! i)" if "i < length hs" for i
      using that
    proof (induction i)
      case 0
      with p0 ne show ?case by (simp add: hd_conv_nth reachable.start)
    next
      case (Suc i)
      then have "reachable ini tr (hs ! i)" by simp
      with ptr[OF Suc.prems] show ?case by (blast intro: reachable.step)
    qed
    from this[of "length hs - 1"] ne lst have "reachable ini tr 5"
      by (simp add: last_conv_nth)
    with unr show ?thesis by simp
  qed
qed

theorem unreachable_terminal_no_trajectory_witness:
  "positive_support (first_positive :: unit sampler) \<and>
   \<not> reachable initial closed_transition 5 \<and>
   (generate first_positive initial closed_transition emission () = None \<or>
    (\<exists>e. generate first_positive initial closed_transition emission () = Some (Inl e)))"
  using unreachable_terminal_no_trajectory[OF positive_support_first_positive
      not_reachable_closed, of emission "()"]
    positive_support_first_positive not_reachable_closed
  by blast

section \<open>No validation of the tables\<close>

text \<open>
  The notebook has no operation that validates the tables, and no error for an invalid
  one: \<^verbatim>\<open>generate(initial, transition, emission)\<close> is called on the tables as they
  are written.

  Claim C3 fails on the code. The row of Adjective in \<open>unchecked_transition\<close> has a
  negative entry and does not sum to one, and \<^verbatim>\<open>generate\<close> still returns the
  trajectory of the scenario, although the scripted sampler itself refuses such a vector:
  the run never draws from that row.
\<close>

theorem raw_tables_not_validated:
  "\<not> list_all (\<lambda>r. list_all (\<lambda>x. 0 \<le> x) r) unchecked_transition \<and>
   \<not> list_all (stochastic_row (1 / 10 ^ 6)) unchecked_transition \<and>
   generate scripted initial unchecked_transition emission [0, 0, 3, 4, 4, 13, 5, 14]
     = Some (Inr ([0, 3, 4, 5], [0, 4, 13, 14], []))"
  by (simp add: generate_def generate_loop_unfold row_at_def accepts_def positive_at_def
        stochastic_row_def initial_def unchecked_transition_def emission_def)

text \<open>
  The loop reads the tables only at the states it visits: a run that returns extends
  \<open>h_total\<close>, and it returns the same on tables that have the same rows at the states
  of \<open>h_total\<close> before the last.
\<close>

lemma generate_loop_visited:
  fixes choice :: "'s sampler"
  assumes run: "generate_loop choice tr em ns nw h hs vs s = Some (Inr (h', hs', vs', s'))"
    and ne: "hs \<noteq> []"
    and lst: "last hs = h"
  shows "(\<exists>ext. hs' = hs @ ext) \<and>
     (list_all (\<lambda>k. k < length tr' \<and> tr' ! k = tr ! k \<and> k < length em' \<and> em' ! k = em ! k)
        (butlast hs') \<longrightarrow>
      generate_loop choice tr' em' ns nw h hs vs s = Some (Inr (h', hs', vs', s')))"
proof -
  let ?A = "\<lambda>k. k < length tr' \<and> tr' ! k = tr ! k \<and> k < length em' \<and> em' ! k = em ! k"
  have aux: "generate_loop c t e n m h hs vs s = Some y \<Longrightarrow>
     c = choice \<and> t = tr \<and> e = em \<and> n = ns \<and> m = nw \<and> hs \<noteq> [] \<and> last hs = h \<longrightarrow>
       (\<forall>h' hs' vs' (s'::'s). y = Inr (h', hs', vs', s') \<longrightarrow>
          (\<exists>ext. hs' = hs @ ext) \<and>
          (list_all ?A (butlast hs') \<longrightarrow>
           generate_loop choice tr' em' ns nw h hs vs s = Some y))"
    for c t e n m h hs vs s y
  proof (erule generate_loop.raw_induct[rotated], goal_cases)
    case (1 f c t e n m h hs vs s y)
    note IH = 1(1)
    show ?case
    proof (intro impI allI, elim conjE)
      fix h' hs' vs' and s' :: 's
      assume eqs: "c = choice" "t = tr" "e = em" "n = ns" "m = nw"
        and ne: "hs \<noteq> []" and lst: "last hs = h" and y: "y = Inr (h', hs', vs', s')"
      have body: "(if h \<noteq> 5 then
            (case row_at em h of
               Inl e \<Rightarrow> Some (Inl e)
             | Inr pe \<Rightarrow>
                 (case choice s nw pe of
                    None \<Rightarrow> Some (Inl ValueError)
                  | Some (v, s1) \<Rightarrow>
                      (case row_at tr h of
                         Inl e \<Rightarrow> Some (Inl e)
                       | Inr pt \<Rightarrow>
                           (case choice s1 ns pt of
                              None \<Rightarrow> Some (Inl ValueError)
                            | Some (h', s2) \<Rightarrow>
                                f choice tr em ns nw h' (hs @ [h']) (vs @ [v]) s2))))
          else Some (Inr (h, hs, vs, s))) = Some y"
        using 1(2) unfolding eqs by (simp add: state2id_EOS)
      show "(\<exists>ext. hs' = hs @ ext) \<and>
          (list_all ?A (butlast hs') \<longrightarrow>
           generate_loop choice tr' em' ns nw h hs vs s = Some y)"
      proof (cases "h = 5")
        case True
        with body y have "hs' = hs" "y = Inr (h, hs, vs, s)" by auto
        with True show ?thesis by (subst generate_loop_unfold) simp
      next
        case h5: False
        from body h5 y obtain v s1 h2 s2 where
          a: "h < length em" "choice s nw (em ! h) = Some (v, s1)"
             "h < length tr" "choice s1 ns (tr ! h) = Some (h2, s2)"
             "f choice tr em ns nw h2 (hs @ [h2]) (vs @ [v]) s2 = Some y"
          by (auto simp: row_at_def split: if_splits option.splits)
        from IH[OF a(5)] y obtain ext where
          ext: "hs' = (hs @ [h2]) @ ext"
          and rec: "list_all ?A (butlast hs') \<Longrightarrow>
            generate_loop choice tr' em' ns nw h2 (hs @ [h2]) (vs @ [v]) s2 = Some y"
          by auto
        have pre: "\<exists>ext. hs' = hs @ ext" using ext by simp
        have "generate_loop choice tr' em' ns nw h hs vs s = Some y"
          if all: "list_all ?A (butlast hs')"
        proof -
          from ext have "butlast hs' = hs @ butlast (h2 # ext)"
            by (simp add: butlast_append)
          with ne lst have "h \<in> set (butlast hs')" by (metis UnCI last_in_set set_append)
          with all have "?A h" by (simp add: list_all_iff)
          with h5 a(2,4) have "generate_loop choice tr' em' ns nw h hs vs s
              = generate_loop choice tr' em' ns nw h2 (hs @ [h2]) (vs @ [v]) s2"
            by (subst generate_loop_unfold) (simp add: row_at_def)
          with rec[OF all] show ?thesis by simp
        qed
        with pre show ?thesis by blast
      qed
    qed
  qed
  from aux[OF run] ne lst show ?thesis by blast
qed

text \<open>
  Claim C3 as amended. \<^verbatim>\<open>generate\<close> samples from the raw tables and examines only the
  rows its run visits: when a call returns, the call on any other tables with the same
  emission rows at the states of \<open>h_total\<close>, the same transition rows at the states
  before the last, and the same row length of \<open>emission\<close>, returns the same lists and
  random state, whatever the other rows hold.
\<close>

theorem generate_examines_visited_rows_only:
  fixes choice :: "'s sampler"
  assumes run: "generate choice ini tr em s = Some (Inr (h_total, v_total, s'))"
    and trs: "list_all (\<lambda>k. k < length tr' \<and> tr' ! k = tr ! k) (butlast h_total)"
    and ems: "list_all (\<lambda>k. k < length em' \<and> em' ! k = em ! k) h_total"
    and nw: "length (hd em') = length (hd em)"
  shows "generate choice ini tr' em' s = Some (Inr (h_total, v_total, s'))"
proof -
  from run obtain h0 s1 vs0 s2 v where
    c0: "choice s (length ini) ini = Some (h0, s1)"
    and loop: "generate_loop choice tr em (length ini) (length (hd em)) h0 [h0] [] s1
       = Some (Inr (5, h_total, vs0, s2))"
    and cv: "choice s2 (length (hd em)) (em ! 5) = Some (v, s')"
    and vs: "v_total = vs0 @ [v]"
    by (rule generate_Inr_elim)
  have "5 = (5::nat) \<and> last h_total = 5 \<and> h_total \<noteq> []"
    by (rule generate_loop_returns[where I = "\<lambda>h hs vs. last hs = h \<and> hs \<noteq> []", OF loop])
      simp_all
  then have lst: "last h_total = 5" and ne: "h_total \<noteq> []" by simp_all
  then have "5 \<in> set h_total" by (metis last_in_set)
  with ems have em5: "5 < length em'" "em' ! 5 = em ! 5" by (simp_all add: list_all_iff)
  then have ne': "em' \<noteq> []" by auto
  have "set (butlast h_total) \<subseteq> set h_total" by (meson in_set_butlastD subsetI)
  with trs ems have
    "list_all (\<lambda>k. k < length tr' \<and> tr' ! k = tr ! k \<and> k < length em' \<and> em' ! k = em ! k)
       (butlast h_total)"
    by (auto simp: list_all_iff)
  with generate_loop_visited[OF loop, of tr' em']
  have loop': "generate_loop choice tr' em' (length ini) (length (hd em)) h0 [h0] [] s1
       = Some (Inr (5, h_total, vs0, s2))"
    by simp
  from c0 loop' cv vs em5 nw show ?thesis
    by (simp add: generate_unfold_ne[OF ne'] row_at_def)
qed

theorem generate_examines_visited_rows_only_witness:
  "generate scripted initial transition emission [0, 0, 3, 4, 4, 13, 5, 14]
     = Some (Inr ([0, 3, 4, 5], [0, 4, 13, 14], [])) \<and>
   list_all (\<lambda>k. k < length unchecked_transition \<and> unchecked_transition ! k = transition ! k)
     (butlast [0, 3, 4, 5]) \<and>
   list_all (\<lambda>k. k < length emission \<and> emission ! k = emission ! k) [0, 3, 4, 5] \<and>
   unchecked_transition \<noteq> transition \<and>
   generate scripted initial unchecked_transition emission [0, 0, 3, 4, 4, 13, 5, 14]
     = Some (Inr ([0, 3, 4, 5], [0, 4, 13, 14], []))"
proof -
  have a: "list_all (\<lambda>k. k < length unchecked_transition \<and>
      unchecked_transition ! k = transition ! k) (butlast [0, 3, 4, 5])"
    by (simp add: unchecked_transition_def transition_def)
  have b: "list_all (\<lambda>k. k < length emission \<and> emission ! k = emission ! k) [0, 3, 4, 5]"
    by (simp add: emission_def)
  have c: "unchecked_transition \<noteq> transition"
    by (simp add: unchecked_transition_def transition_def)
  from generate_examines_visited_rows_only[OF scenario_run a b refl] scenario_run a b c
  show ?thesis by blast
qed

end
